theory Spec2Isabelle
  imports Complex_Main
begin

section \<open>JavaScript numbers\<close>

text \<open>
  Every value the two engines compute is a JavaScript Number, an IEEE 754 double. The
  model keeps the four kinds of value that decide the behaviour of the code: a finite
  value, the two infinities and NaN. The result of an operation overflows to an infinity
  and underflows to zero where the double format does, and the infinities, division by
  zero and NaN follow the IEEE 754 rules. A finite result that is not zero is kept as
  the exact real: rounding to 53 significant bits is not modelled. Zero carries no sign
  (it stands for \<open>+0\<close>).
\<close>

datatype number = Fin real | PInf | NInf | NaN

definition overflow_bound :: real where
  \<comment> \<open>the least magnitude that round-to-nearest takes to infinity: 2^1024 - 2^970\<close>
  "overflow_bound = 2 ^ 1024 - 2 ^ 970"

definition underflow_bound :: real where
  \<comment> \<open>the greatest magnitude that round-to-nearest takes to zero: 2^-1075\<close>
  "underflow_bound = 1 / 2 ^ 1075"

definition to_double :: "real \<Rightarrow> number" where
  "to_double x =
     (if overflow_bound \<le> x then PInf
      else if x \<le> - overflow_bound then NInf
      else if \<bar>x\<bar> \<le> underflow_bound then Fin 0
      else Fin x)"

fun neg :: "number \<Rightarrow> number" where
  "neg (Fin x) = Fin (- x)"
| "neg PInf = NInf"
| "neg NInf = PInf"
| "neg NaN = NaN"

fun add :: "number \<Rightarrow> number \<Rightarrow> number" where
  "add NaN b = NaN"
| "add a NaN = NaN"
| "add PInf NInf = NaN"
| "add NInf PInf = NaN"
| "add PInf b = PInf"
| "add a PInf = PInf"
| "add NInf b = NInf"
| "add a NInf = NInf"
| "add (Fin x) (Fin y) = to_double (x + y)"

fun mul :: "number \<Rightarrow> number \<Rightarrow> number" where
  "mul NaN b = NaN"
| "mul a NaN = NaN"
| "mul PInf PInf = PInf"
| "mul PInf NInf = NInf"
| "mul NInf PInf = NInf"
| "mul NInf NInf = PInf"
| "mul PInf (Fin y) = (if y = 0 then NaN else if 0 < y then PInf else NInf)"
| "mul NInf (Fin y) = (if y = 0 then NaN else if 0 < y then NInf else PInf)"
| "mul (Fin x) PInf = (if x = 0 then NaN else if 0 < x then PInf else NInf)"
| "mul (Fin x) NInf = (if x = 0 then NaN else if 0 < x then NInf else PInf)"
| "mul (Fin x) (Fin y) = to_double (x * y)"

fun divide_num :: "number \<Rightarrow> number \<Rightarrow> number" where
  "divide_num NaN b = NaN"
| "divide_num a NaN = NaN"
| "divide_num PInf PInf = NaN"
| "divide_num PInf NInf = NaN"
| "divide_num NInf PInf = NaN"
| "divide_num NInf NInf = NaN"
| "divide_num PInf (Fin y) = (if 0 \<le> y then PInf else NInf)"
| "divide_num NInf (Fin y) = (if 0 \<le> y then NInf else PInf)"
| "divide_num (Fin x) PInf = Fin 0"
| "divide_num (Fin x) NInf = Fin 0"
| "divide_num (Fin x) (Fin y) =
     (if y = 0 then (if x = 0 then NaN else if 0 < x then PInf else NInf)
      else to_double (x / y))"

fun lt :: "number \<Rightarrow> number \<Rightarrow> bool" where
  "lt (Fin x) (Fin y) = (x < y)"
| "lt (Fin x) PInf = True"
| "lt NInf (Fin y) = True"
| "lt NInf PInf = True"
| "lt a b = False"

fun le :: "number \<Rightarrow> number \<Rightarrow> bool" where
  "le (Fin x) (Fin y) = (x \<le> y)"
| "le NaN b = False"
| "le a NaN = False"
| "le NInf b = True"
| "le a PInf = True"
| "le a b = False"

text \<open>
  \<open>Math.log\<close>: the logarithm of a positive number, minus infinity at zero, NaN below
  zero.
\<close>

fun math_log :: "number \<Rightarrow> number" where
  "math_log (Fin x) = (if x < 0 then NaN else if x = 0 then NInf else to_double (ln x))"
| "math_log PInf = PInf"
| "math_log NInf = NaN"
| "math_log NaN = NaN"

text \<open>
  \<open>Math.pow\<close> with an integer exponent, the only way the code calls it: the exponent
  zero gives 1 for every base, NaN included.
\<close>

fun math_pow :: "number \<Rightarrow> int \<Rightarrow> number" where
  "math_pow a y =
     (if y = 0 then Fin 1
      else case a of
        NaN \<Rightarrow> NaN
      | PInf \<Rightarrow> (if 0 < y then PInf else Fin 0)
      | NInf \<Rightarrow> (if 0 < y then (if odd y then NInf else PInf) else Fin 0)
      | Fin x \<Rightarrow>
          (if x = 0 then (if 0 < y then Fin 0 else PInf)
           else to_double (x powi y)))"

section \<open>erlangB.js\<close>

function factorial :: "int \<Rightarrow> number" where
  "factorial n = (if n \<le> 1 then Fin 1 else mul (Fin (of_int n)) (factorial (n - 1)))"
  by pat_completeness auto
termination
  by (relation "measure nat") auto

text \<open>The \<open>for\<close> loop of \<open>erlangBFormula\<close>, from counter \<open>k\<close> with the sum so far.\<close>

function erlang_loop :: "number \<Rightarrow> int \<Rightarrow> int \<Rightarrow> number \<Rightarrow> number" where
  "erlang_loop A S k denominator =
     (if k \<le> S
      then erlang_loop A S (k + 1)
             (add denominator (divide_num (math_pow A k) (factorial k)))
      else denominator)"
  by pat_completeness auto
termination
  by (relation "measure (\<lambda>(A, S, k, d). nat (S + 1 - k))") auto

definition erlangBFormula :: "number \<Rightarrow> int \<Rightarrow> number" where
  "erlangBFormula A S =
     (let numerator = divide_num (math_pow A S) (factorial S);
          denominator = erlang_loop A S 0 (Fin 0)
      in divide_num numerator denominator)"

text \<open>
  The server count is an integer, as \<open>parseInt\<close> in \<open>chart.js\<close> delivers it when it
  delivers a number. \<open>factorial n\<close> and \<open>erlangBFormula A S\<close> above are the values the
  calls return when the call stack is deep enough for them.

  The calls themselves, on a call stack with \<open>frames\<close> free frames: each call of a
  function of the file takes one frame, and a call that finds none throws \<open>RangeError\<close>
  (maximum call stack size exceeded), which nothing in the file catches.
  \<open>factorial(n)\<close> nests \<open>n - 1\<close> further calls. \<open>Math.pow\<close> is called only where
  \<open>factorial\<close> is called next with the same free frames, so a stack too shallow for it
  gives the same \<open>RangeError\<close>.
\<close>

datatype error = RangeError

fun factorial_call :: "nat \<Rightarrow> int \<Rightarrow> error + number" where
  "factorial_call 0 n = Inl RangeError"
| "factorial_call (Suc frames) n =
     (if n \<le> 1 then Inr (Fin 1)
      else case factorial_call frames (n - 1) of
             Inl e \<Rightarrow> Inl e
           | Inr v \<Rightarrow> Inr (mul (Fin (of_int n)) v))"

function erlang_loop_call ::
  "nat \<Rightarrow> number \<Rightarrow> int \<Rightarrow> int \<Rightarrow> number \<Rightarrow> error + number" where
  "erlang_loop_call frames A S k denominator =
     (if k \<le> S
      then case factorial_call frames k of
             Inl e \<Rightarrow> Inl e
           | Inr f \<Rightarrow>
               erlang_loop_call frames A S (k + 1)
                 (add denominator (divide_num (math_pow A k) f))
      else Inr denominator)"
  by pat_completeness auto
termination
  by (relation "measure (\<lambda>(frames, A, S, k, d). nat (S + 1 - k))") auto

fun erlangBFormula_call :: "nat \<Rightarrow> number \<Rightarrow> int \<Rightarrow> error + number" where
  "erlangBFormula_call 0 A S = Inl RangeError"
| "erlangBFormula_call (Suc frames) A S =
     (case factorial_call frames S of
        Inl e \<Rightarrow> Inl e
      | Inr f \<Rightarrow>
          (let numerator = divide_num (math_pow A S) f
           in case erlang_loop_call frames A S 0 (Fin 0) of
                Inl e \<Rightarrow> Inl e
              | Inr denominator \<Rightarrow> Inr (divide_num numerator denominator)))"

definition is_probability :: "number \<Rightarrow> bool" where
  \<comment> \<open>a finite value in \<open>[0, 1]\<close>\<close>
  "is_probability v = (le (Fin 0) v \<and> le v (Fin 1))"

text \<open>
  The closed form the function is meant to compute, over the reals:
  \<open>B(A, S) = (A^S / S!) / (\<Sum>k\<le>S. A^k / k!)\<close>.
\<close>

definition erlangB_closed_form :: "real \<Rightarrow> nat \<Rightarrow> real" where
  "erlangB_closed_form A S = (A ^ S / fact S) / (\<Sum>k\<le>S. A ^ k / fact k)"

text \<open>
  The loads and server counts at which nothing in \<open>erlangBFormula\<close> leaves the range
  of the doubles: the factorials are finite (\<open>S \<le> 170\<close>), the sum of the terms stays
  below the overflow bound, and no term and no quotient falls to the underflow bound.
\<close>

definition no_overflow :: "real \<Rightarrow> nat \<Rightarrow> bool" where
  "no_overflow a S =
     (0 < a \<and> S \<le> 170 \<and> real (S + 1) * a ^ S < overflow_bound \<and>
      underflow_bound * fact (S + 1) < a ^ S)"

section \<open>simulation.js\<close>

text \<open>
  The state of one run: the four local variables of \<open>simulateBlockingProbability\<close>, the
  timers that \<open>setTimeout\<close> has queued (the delay of each, in milliseconds, in the order
  queued), and the number of calls of \<open>Math.random\<close> made so far. The counters hold
  integers, exact in a double below \<open>2^53\<close>.

  JavaScript runs a function to completion: a callback queued with \<open>setTimeout\<close> is run
  by the event loop only after the running function has returned, whatever its delay.
  Within the function the callback \<open>serversInUse--\<close> is therefore only queued.
\<close>

record sim_state =
  blocked :: nat
  served :: nat
  currentTime :: number
  serversInUse :: int
  timers :: "number list"
  draws :: nat

definition init_state :: sim_state where
  "init_state =
     \<lparr>blocked = 0, served = 0, currentTime = Fin 0, serversInUse = 0, timers = [], draws = 0\<rparr>"

text \<open>
  The random source: \<open>rng i\<close> is what the \<open>i\<close>-th call of \<open>Math.random\<close> returns.
  One pass through the loop body:
\<close>

definition arrival ::
  "(nat \<Rightarrow> real) \<Rightarrow> number \<Rightarrow> number \<Rightarrow> int \<Rightarrow> sim_state \<Rightarrow> sim_state" where
  "arrival rng lambda mu servers s =
     (let interArrival = divide_num (neg (math_log (Fin (rng (draws s))))) lambda;
          serviceTime = divide_num (neg (math_log (Fin (rng (draws s + 1))))) mu;
          s1 = s\<lparr>draws := draws s + 2, currentTime := add (currentTime s) interArrival\<rparr>
      in if serversInUse s1 < servers
         then s1\<lparr>serversInUse := serversInUse s1 + 1,
                 served := served s1 + 1,
                 timers := timers s1 @ [mul serviceTime (Fin 1000)]\<rparr>
         else s1\<lparr>blocked := blocked s1 + 1\<rparr>)"

text \<open>The \<open>while\<close> loop; a run that never leaves it has the value \<open>None\<close>.\<close>

partial_function (option) sim_loop ::
  "(nat \<Rightarrow> real) \<Rightarrow> number \<Rightarrow> number \<Rightarrow> int \<Rightarrow> number \<Rightarrow> sim_state \<Rightarrow> sim_state option" where
  "sim_loop rng lambda mu servers timeLimit s =
     (if lt (currentTime s) timeLimit
      then sim_loop rng lambda mu servers timeLimit (arrival rng lambda mu servers s)
      else Some s)"

definition blocking_ratio :: "sim_state \<Rightarrow> number" where
  \<comment> \<open>the returned expression, \<open>blocked / (blocked + served)\<close>\<close>
  "blocking_ratio s = divide_num (Fin (real (blocked s))) (Fin (real (blocked s + served s)))"

definition simulateBlockingProbability ::
  "(nat \<Rightarrow> real) \<Rightarrow> number \<Rightarrow> number \<Rightarrow> int \<Rightarrow> number \<Rightarrow> number option" where
  "simulateBlockingProbability rng lambda mu servers timeLimit =
     map_option blocking_ratio (sim_loop rng lambda mu servers timeLimit init_state)"

text \<open>
  A random source for a test run: the values of a list in the order given, then \<open>d\<close>
  for ever.
\<close>

definition list_source :: "real list \<Rightarrow> real \<Rightarrow> nat \<Rightarrow> real" where
  "list_source xs d i = (if i < length xs then xs ! i else d)"

text \<open>The state after the first \<open>n\<close> passes through the loop body.\<close>

fun state_after :: "(nat \<Rightarrow> real) \<Rightarrow> number \<Rightarrow> number \<Rightarrow> int \<Rightarrow> nat \<Rightarrow> sim_state" where
  "state_after rng lambda mu servers 0 = init_state"
| "state_after rng lambda mu servers (Suc n) =
     arrival rng lambda mu servers (state_after rng lambda mu servers n)"

declare factorial.simps [simp del]
declare erlang_loop.simps [simp del]
declare math_pow.simps [simp del]
declare erlang_loop_call.simps [simp del]

section \<open>Facts about the numbers\<close>

lemma overflow_bound_pos: "1 < overflow_bound"
  unfolding overflow_bound_def by simp

lemma overflow_bound_le: "2 ^ 1024 \<le> x \<Longrightarrow> overflow_bound \<le> x"
  unfolding overflow_bound_def by simp

lemma underflow_bound_small: "0 < underflow_bound" "underflow_bound < 1 / 1000"
  unfolding underflow_bound_def by simp_all

lemma to_double_overflow: "overflow_bound \<le> x \<Longrightarrow> to_double x = PInf"
  by (simp add: to_double_def)

lemma to_double_fin:
  "underflow_bound < \<bar>x\<bar> \<Longrightarrow> \<bar>x\<bar> < overflow_bound \<Longrightarrow> to_double x = Fin x"
  by (auto simp: to_double_def)

lemma to_double_ge_1:
  "1 \<le> x \<Longrightarrow> to_double x = (if overflow_bound \<le> x then PInf else Fin x)"
  using overflow_bound_pos underflow_bound_small by (simp add: to_double_def)

lemma to_double_moderate:
  "1 / 1000 \<le> \<bar>x\<bar> \<Longrightarrow> \<bar>x\<bar> \<le> 2000 \<Longrightarrow> to_double x = Fin x"
proof -
  assume "1 / 1000 \<le> \<bar>x\<bar>" and "\<bar>x\<bar> \<le> 2000"
  moreover have "2000 < overflow_bound"
    unfolding overflow_bound_def by simp
  ultimately show ?thesis
    using underflow_bound_small by (intro to_double_fin) linarith+
qed

lemma to_double_0: "to_double 0 = Fin 0"
  using overflow_bound_pos underflow_bound_small by (simp add: to_double_def)

lemma to_double_1: "to_double 1 = Fin 1"
  by (rule to_double_moderate) simp_all

lemma to_double_unit:
  "0 \<le> x \<Longrightarrow> x \<le> 1 \<Longrightarrow> is_probability (to_double x)"
  using overflow_bound_pos by (simp add: to_double_def is_probability_def)


lemma math_pow_0: "math_pow A 0 = Fin 1"
  by (simp add: math_pow.simps)

lemma math_pow_zero_base: "0 < k \<Longrightarrow> math_pow (Fin 0) k = Fin 0"
  by (simp add: math_pow.simps)


lemma math_pow_overflow:
  assumes "0 < S" and "overflow_bound \<le> a ^ nat S"
  shows "math_pow (Fin a) S = PInf"
proof -
  have "a \<noteq> 0"
    using assms overflow_bound_pos by (auto simp: zero_power)
  moreover have "a powi S = a ^ nat S"
    using assms(1) by (simp add: power_int_def)
  ultimately show ?thesis
    using assms by (simp add: math_pow.simps to_double_overflow)
qed

section \<open>Facts about \<open>factorial\<close> and \<open>erlangBFormula\<close>\<close>

lemma factorial_small: "n \<le> 1 \<Longrightarrow> factorial n = Fin 1"
  by (simp add: factorial.simps)

lemma factorial_step: "1 < n \<Longrightarrow> factorial n = mul (Fin (of_int n)) (factorial (n - 1))"
  by (subst factorial.simps) simp

text \<open>
  \<open>factorial n\<close> is \<open>n!\<close> as long as \<open>n!\<close> is below the overflow bound, and
  \<open>Infinity\<close> from then on.
\<close>

lemma factorial_fact: "factorial (int n) = to_double (fact n)"
proof (induction n)
  case 0
  show ?case by (simp add: factorial_small to_double_1)
next
  case (Suc n)
  show ?case
  proof (cases "n = 0")
    case True
    then show ?thesis by (simp add: factorial_small to_double_1)
  next
    case False
    then have step: "factorial (int (Suc n)) = mul (Fin (real (Suc n))) (factorial (int n))"
      using factorial_step [of "int (Suc n)"] by simp
    show ?thesis
    proof (cases "overflow_bound \<le> fact n")
      case True
      have "(fact n :: real) \<le> fact (Suc n)"
        by (rule fact_mono) simp
      with True have "overflow_bound \<le> fact (Suc n)" by linarith
      then have "to_double (fact (Suc n)) = PInf" by (rule to_double_overflow)
      moreover have "factorial (int (Suc n)) = PInf"
        using step Suc.IH True by (simp add: to_double_overflow)
      ultimately show ?thesis by simp
    next
      case False
      then have "to_double (fact n) = Fin (fact n)"
        by (simp add: to_double_ge_1)
      then show ?thesis using step Suc.IH by simp
    qed
  qed
qed

lemma fact_171_overflow: "overflow_bound \<le> fact (171::nat)"
  by (rule overflow_bound_le) (simp add: fact_numeral)

lemma factorial_overflow:
  assumes "171 \<le> n"
  shows "factorial n = PInf"
proof -
  have "(fact (171::nat) :: real) \<le> fact (nat n)"
    by (rule fact_mono) (use assms in simp)
  then have "overflow_bound \<le> fact (nat n)"
    using fact_171_overflow by linarith
  then have "to_double (fact (nat n)) = PInf" by (rule to_double_overflow)
  then show ?thesis using factorial_fact [of "nat n"] assms by simp
qed

lemma factorial_cases: "factorial n = PInf \<or> (\<exists>x. 1 \<le> x \<and> factorial n = Fin x)"
proof (cases "n \<le> 1")
  case True
  then show ?thesis by (simp add: factorial_small)
next
  case False
  then have "factorial n = to_double (fact (nat n))"
    using factorial_fact [of "nat n"] by simp
  moreover have "(1::real) \<le> fact (nat n)" by (rule fact_ge_1)
  ultimately show ?thesis by (simp add: to_double_ge_1)
qed

lemma zero_over_factorial: "divide_num (Fin 0) (factorial k) = Fin 0"
  using factorial_cases [of k] by (auto simp: to_double_0)

lemma erlang_loop_exit: "S < k \<Longrightarrow> erlang_loop A S k d = d"
  by (subst erlang_loop.simps) simp

lemma erlang_loop_step:
  "k \<le> S \<Longrightarrow> erlang_loop A S k d =
     erlang_loop A S (k + 1) (add d (divide_num (math_pow A k) (factorial k)))"
  by (subst erlang_loop.simps) simp

lemma erlang_loop_first:
  "0 \<le> S \<Longrightarrow> erlang_loop A S 0 (Fin 0) = erlang_loop A S 1 (Fin 1)"
  by (simp add: erlang_loop_step math_pow_0 factorial_small to_double_1)

lemma erlang_loop_zero_load: "1 \<le> k \<Longrightarrow> erlang_loop (Fin 0) S k (Fin 1) = Fin 1"
proof (induction "nat (S + 1 - k)" arbitrary: k)
  case 0
  then show ?case by (simp add: erlang_loop_exit)
next
  case (Suc j)
  then have kS: "k \<le> S" and j: "j = nat (S + 1 - (k + 1))" by linarith+
  have "erlang_loop (Fin 0) S k (Fin 1) = erlang_loop (Fin 0) S (k + 1) (Fin 1)"
    using kS Suc.prems
    by (simp add: erlang_loop_step math_pow_zero_base zero_over_factorial to_double_1)
  also have "\<dots> = Fin 1" using Suc.hyps(1) [OF j] Suc.prems by simp
  finally show ?case .
qed

lemma erlangBFormula_no_servers: "erlangBFormula A 0 = Fin 1"
  by (simp add: erlangBFormula_def erlang_loop_first erlang_loop_exit math_pow_0
    factorial_small to_double_1)

text \<open>
  From 171 servers on \<open>factorial S\<close> is \<open>Infinity\<close>; when the power overflows as well,
  the numerator is \<open>Infinity / Infinity\<close>, and the NaN goes through the final division.
\<close>

lemma erlangBFormula_overflow:
  "171 \<le> S \<Longrightarrow> overflow_bound \<le> a ^ nat S \<Longrightarrow> erlangBFormula (Fin a) S = NaN"
  by (simp add: erlangBFormula_def math_pow_overflow factorial_overflow)

lemma erlangBFormula_100_200: "erlangBFormula (Fin 100) 200 = NaN"
  by (rule erlangBFormula_overflow) (simp_all add: overflow_bound_le)

subsection \<open>The calls on a bounded call stack\<close>

text \<open>
  \<open>factorial(n)\<close> needs \<open>max 1 n\<close> free frames, and \<open>erlangBFormula(A, S)\<close> one more
  than \<open>factorial(S)\<close>. With that many the calls return the values above; with fewer
  they throw \<open>RangeError\<close>.
\<close>

lemma factorial_call_value:
  "factorial_call frames n =
     (if frames < nat (max 1 n) then Inl RangeError else Inr (factorial n))"
proof (induction frames arbitrary: n)
  case 0
  show ?case by simp
next
  case (Suc frames)
  show ?case
  proof (cases "n \<le> 1")
    case True
    then show ?thesis by (simp add: factorial_small)
  next
    case False
    then have "factorial n = mul (Fin (of_int n)) (factorial (n - 1))"
      by (intro factorial_step) simp
    with False show ?thesis by (simp add: Suc.IH) linarith
  qed
qed

lemma erlang_loop_call_value:
  "erlang_loop_call frames A S k d =
     (if k \<le> S \<and> frames < nat (max 1 S) then Inl RangeError
      else Inr (erlang_loop A S k d))"
proof (induction "nat (S + 1 - k)" arbitrary: k d)
  case 0
  then have "S < k" by simp
  then show ?case by (simp add: erlang_loop_call.simps erlang_loop_exit)
next
  case (Suc j)
  then have kS: "k \<le> S" and j: "j = nat (S + 1 - (k + 1))" by linarith+
  show ?case
  proof (cases "frames < nat (max 1 k)")
    case True
    with kS have "frames < nat (max 1 S)" by linarith
    with True kS show ?thesis
      by (subst erlang_loop_call.simps) (simp add: factorial_call_value)
  next
    case False
    have "erlang_loop_call frames A S k d =
        erlang_loop_call frames A S (k + 1) (add d (divide_num (math_pow A k) (factorial k)))"
      using kS False by (subst erlang_loop_call.simps) (simp add: factorial_call_value)
    also have "\<dots> =
        (if k + 1 \<le> S \<and> frames < nat (max 1 S) then Inl RangeError
         else Inr (erlang_loop A S (k + 1) (add d (divide_num (math_pow A k) (factorial k)))))"
      by (rule Suc.hyps(1) [OF j])
    also have "\<dots> =
        (if k \<le> S \<and> frames < nat (max 1 S) then Inl RangeError
         else Inr (erlang_loop A S k d))"
      using kS False by (auto simp: erlang_loop_step)
    finally show ?thesis .
  qed
qed

lemma erlangBFormula_call_value:
  "erlangBFormula_call frames A S =
     (if frames \<le> nat (max 1 S) then Inl RangeError else Inr (erlangBFormula A S))"
proof (cases frames)
  case 0
  then show ?thesis by simp
next
  case (Suc f)
  then show ?thesis
    by (auto simp: factorial_call_value erlang_loop_call_value erlangBFormula_def Let_def)
qed

text \<open>
  The overflow at 100 erlangs and 200 servers, as a call: with too few frames it throws,
  with enough it returns NaN.
\<close>

lemma erlangBFormula_call_100_200:
  "erlangBFormula_call frames (Fin 100) 200 =
     (if frames \<le> 200 then Inl RangeError else Inr NaN)"
  by (simp add: erlangBFormula_call_value erlangBFormula_100_200)

subsection \<open>Agreement with the closed form\<close>

text \<open>
  Where nothing overflows or underflows, every power, factorial, term and partial sum
  of the loop is the exact one, and the function returns the closed form.
\<close>

lemma fact_170_bound: "fact (170::nat) < overflow_bound"
  unfolding overflow_bound_def by (simp add: fact_numeral)

lemma fact_171_underflow: "underflow_bound * fact (171::nat) < 1"
  unfolding underflow_bound_def by (simp add: fact_numeral)

lemma power_range:
  fixes a :: real
  assumes "0 < a" "k \<le> S"
  shows "min 1 (a ^ S) \<le> a ^ k" "a ^ k \<le> max 1 (a ^ S)"
proof -
  show "min 1 (a ^ S) \<le> a ^ k"
  proof (cases "1 \<le> a")
    case True
    then have "1 \<le> a ^ k" by (rule one_le_power)
    then show ?thesis by simp
  next
    case False
    then have "a ^ S \<le> a ^ k" using assms by (intro power_decreasing) simp_all
    then show ?thesis by simp
  qed
  show "a ^ k \<le> max 1 (a ^ S)"
  proof (cases "1 \<le> a")
    case True
    then have "a ^ k \<le> a ^ S" using assms by (intro power_increasing) simp_all
    then show ?thesis by simp
  next
    case False
    then have "a ^ k \<le> 1" using assms by (intro power_le_one) simp_all
    then show ?thesis by simp
  qed
qed

lemma no_overflow_range:
  assumes "no_overflow a S"
  shows "real (S + 1) * max 1 (a ^ S) < overflow_bound"
    and "underflow_bound * fact (S + 1) < min 1 (a ^ S)"
proof -
  from assms have S: "S \<le> 170"
    and hi: "real (S + 1) * a ^ S < overflow_bound"
    and lo: "underflow_bound * fact (S + 1) < a ^ S"
    by (simp_all add: no_overflow_def)
  have "real (S + 1) \<le> 171" using S by simp
  moreover have "171 < overflow_bound"
    unfolding overflow_bound_def by simp
  ultimately have "real (S + 1) * 1 < overflow_bound" by simp
  with hi show "real (S + 1) * max 1 (a ^ S) < overflow_bound"
    by (simp add: max_def)
  have "(fact (S + 1) :: real) \<le> fact 171"
    by (rule fact_mono) (use S in simp)
  then have "underflow_bound * fact (S + 1) \<le> underflow_bound * fact 171"
    using underflow_bound_small(1) by (simp add: mult_left_mono)
  with fact_171_underflow have "underflow_bound * fact (S + 1) < 1" by linarith
  with lo show "underflow_bound * fact (S + 1) < min 1 (a ^ S)"
    by (simp add: min_def)
qed

lemma term_range:
  assumes "no_overflow a S" and "k \<le> S"
  shows "underflow_bound < a ^ k" "a ^ k < overflow_bound"
    and "underflow_bound < a ^ k / fact k" "a ^ k / fact k \<le> max 1 (a ^ S)"
proof -
  from assms(1) have a: "0 < a" by (simp add: no_overflow_def)
  note r = no_overflow_range [OF assms(1)]
  note p = power_range [OF a assms(2)]
  have f1: "(1::real) \<le> fact k" by (rule fact_ge_1)
  have f2: "(fact k :: real) \<le> fact (S + 1)"
    by (rule fact_mono) (use assms(2) in simp)
  have M: "max 1 (a ^ S) < overflow_bound"
  proof -
    have "max 1 (a ^ S) * 1 \<le> max 1 (a ^ S) * real (S + 1)"
      by (intro mult_left_mono) simp_all
    with r(1) show ?thesis by (simp add: mult.commute)
  qed
  have ub: "underflow_bound * fact k < min 1 (a ^ S)"
  proof -
    have "underflow_bound * fact k \<le> underflow_bound * fact (S + 1)"
      using f2 underflow_bound_small(1) by (simp add: mult_left_mono)
    with r(2) show ?thesis by linarith
  qed
  have "underflow_bound * 1 \<le> underflow_bound * fact k"
    using f1 underflow_bound_small(1) by (intro mult_left_mono) simp_all
  with ub p(1) show "underflow_bound < a ^ k" by linarith
  from p(2) M show "a ^ k < overflow_bound" by linarith
  from ub p(1) have "underflow_bound * fact k < a ^ k" by linarith
  then show "underflow_bound < a ^ k / fact k"
    by (simp add: pos_less_divide_eq)
  have "a ^ k / fact k \<le> a ^ k / 1"
    using f1 a by (intro divide_left_mono) simp_all
  with p(2) show "a ^ k / fact k \<le> max 1 (a ^ S)" by simp
qed

lemma math_pow_exact:
  assumes "no_overflow a S" and "k \<le> S"
  shows "math_pow (Fin a) (int k) = Fin (a ^ k)"
proof (cases "k = 0")
  case True
  then show ?thesis by (simp add: math_pow_0)
next
  case False
  from assms(1) have "a \<noteq> 0" by (simp add: no_overflow_def)
  moreover have "a ^ k \<noteq> 0" using calculation by simp
  moreover have "to_double (a ^ k) = Fin (a ^ k)"
    using term_range(1,2) [OF assms] underflow_bound_small(1)
    by (intro to_double_fin) linarith+
  ultimately show ?thesis using False by (simp add: math_pow.simps)
qed

lemma factorial_exact: "k \<le> 170 \<Longrightarrow> factorial (int k) = Fin (fact k)"
proof -
  assume "k \<le> 170"
  then have "(fact k :: real) \<le> fact 170" by (intro fact_mono) simp
  with fact_170_bound have "\<not> overflow_bound \<le> fact k" by linarith
  then show ?thesis by (simp add: factorial_fact to_double_ge_1)
qed

lemma term_exact:
  assumes "no_overflow a S" and "k \<le> S"
  shows "divide_num (math_pow (Fin a) (int k)) (factorial (int k)) = Fin (a ^ k / fact k)"
proof -
  from assms have k: "k \<le> 170" by (simp add: no_overflow_def)
  note t = term_range [OF assms]
  have "max 1 (a ^ S) * 1 \<le> max 1 (a ^ S) * real (S + 1)"
    by (intro mult_left_mono) simp_all
  then have "max 1 (a ^ S) \<le> real (S + 1) * max 1 (a ^ S)"
    by (simp only: mult.commute mult_1)
  with no_overflow_range(1) [OF assms(1)] t(4) have "a ^ k / fact k < overflow_bound"
    by linarith
  moreover have "0 < a ^ k / fact k"
    using t(3) underflow_bound_small(1) by linarith
  ultimately have "to_double (a ^ k / fact k) = Fin (a ^ k / fact k)"
    using t(3) by (intro to_double_fin) linarith+
  then show ?thesis
    by (simp add: math_pow_exact [OF assms] factorial_exact [OF k])
qed

lemma sum_range:
  assumes "no_overflow a S" and "1 \<le> k" and "k \<le> S + 1"
  shows "1 \<le> (\<Sum>j<k. a ^ j / fact j)"
    and "(\<Sum>j<k. a ^ j / fact j) \<le> real (S + 1) * max 1 (a ^ S)"
proof -
  from assms(1) have a: "0 < a" by (simp add: no_overflow_def)
  have "a ^ 0 / fact 0 \<le> (\<Sum>j<k. a ^ j / fact j)"
    using assms(2) a by (intro member_le_sum) simp_all
  then show "1 \<le> (\<Sum>j<k. a ^ j / fact j)" by simp
  have "(\<Sum>j<k. a ^ j / fact j) \<le> of_nat (card {..<k}) * max 1 (a ^ S)"
  proof (rule sum_bounded_above)
    fix j assume "j \<in> {..<k}"
    with assms(3) have "j \<le> S" by simp
    from term_range(4) [OF assms(1) this] show "a ^ j / fact j \<le> max 1 (a ^ S)" .
  qed
  also have "\<dots> \<le> real (S + 1) * max 1 (a ^ S)"
    using assms(3) by (intro mult_right_mono) simp_all
  finally show "(\<Sum>j<k. a ^ j / fact j) \<le> real (S + 1) * max 1 (a ^ S)" .
qed

lemma sum_exact:
  assumes "no_overflow a S" and "1 \<le> k" and "k \<le> S + 1"
  shows "to_double (\<Sum>j<k. a ^ j / fact j) = Fin (\<Sum>j<k. a ^ j / fact j)"
  using sum_range [OF assms] no_overflow_range(1) [OF assms(1)] underflow_bound_small
  by (intro to_double_fin) linarith+

lemma erlang_loop_exact:
  assumes "no_overflow a S" and "1 \<le> k" and "k \<le> S + 1"
  shows "erlang_loop (Fin a) (int S) (int k) (Fin (\<Sum>j<k. a ^ j / fact j)) =
    Fin (\<Sum>j\<le>S. a ^ j / fact j)"
  using assms(2,3)
proof (induction "S + 1 - k" arbitrary: k)
  case 0
  then have "k = Suc S" by simp
  then show ?case by (simp add: erlang_loop_exit lessThan_Suc_atMost)
next
  case (Suc d)
  then have kS: "k \<le> S" and d: "d = S + 1 - Suc k" by simp_all
  have "erlang_loop (Fin a) (int S) (int k) (Fin (\<Sum>j<k. a ^ j / fact j)) =
      erlang_loop (Fin a) (int S) (int k + 1)
        (add (Fin (\<Sum>j<k. a ^ j / fact j)) (Fin (a ^ k / fact k)))"
    using kS by (simp add: erlang_loop_step term_exact [OF assms(1) kS])
  also have "add (Fin (\<Sum>j<k. a ^ j / fact j)) (Fin (a ^ k / fact k)) =
      Fin (\<Sum>j<Suc k. a ^ j / fact j)"
    using sum_exact [OF assms(1), of "Suc k"] kS by simp
  also have "int k + 1 = int (Suc k)" by simp
  also have "erlang_loop (Fin a) (int S) (int (Suc k)) (Fin (\<Sum>j<Suc k. a ^ j / fact j)) =
      Fin (\<Sum>j\<le>S. a ^ j / fact j)"
    using kS by (intro Suc.hyps(1) [OF d]) simp_all
  finally show ?case .
qed

lemma erlangBFormula_exact:
  assumes "no_overflow a S"
  shows "erlangBFormula (Fin a) (int S) = Fin (erlangB_closed_form a S)"
proof -
  let ?t = "a ^ S / fact S"
  let ?d = "\<Sum>j\<le>S. a ^ j / fact j"
  let ?M = "max 1 (a ^ S)"
  from assms have a: "0 < a" by (simp add: no_overflow_def)
  have num: "divide_num (math_pow (Fin a) (int S)) (factorial (int S)) = Fin ?t"
    by (rule term_exact [OF assms]) simp
  have "erlang_loop (Fin a) (int S) 0 (Fin 0) = erlang_loop (Fin a) (int S) 1 (Fin 1)"
    by (rule erlang_loop_first) simp
  also have "\<dots> = erlang_loop (Fin a) (int S) (int 1) (Fin (\<Sum>j<1. a ^ j / fact j))"
    by simp
  also have "\<dots> = Fin ?d"
    by (rule erlang_loop_exact [OF assms]) simp_all
  finally have den: "erlang_loop (Fin a) (int S) 0 (Fin 0) = Fin ?d" .
  have d: "1 \<le> ?d" "?d \<le> real (S + 1) * ?M"
    using sum_range [OF assms, of "S + 1"] by (simp_all add: lessThan_Suc_atMost)
  have "?t \<le> ?d"
    by (intro member_le_sum) (use a in simp_all)
  moreover have dpos: "0 < ?d" using d(1) by linarith
  ultimately have le1: "?t / ?d \<le> 1" by (simp only: divide_le_eq_1_pos)
  have "underflow_bound * ?d < ?t"
  proof -
    have M: "0 < ?M" by simp
    have "a ^ S = min 1 (a ^ S) * ?M" by (simp add: min_def max_def)
    moreover have "underflow_bound * fact (S + 1) * ?M < min 1 (a ^ S) * ?M"
      using no_overflow_range(2) [OF assms] M by (intro mult_strict_right_mono)
    ultimately have "underflow_bound * (real (S + 1) * ?M) * fact S < a ^ S"
      by (simp add: algebra_simps)
    then have "underflow_bound * (real (S + 1) * ?M) < ?t"
      by (simp add: pos_less_divide_eq)
    moreover have "underflow_bound * ?d \<le> underflow_bound * (real (S + 1) * ?M)"
      using d(2) underflow_bound_small(1) by (intro mult_left_mono) simp_all
    ultimately show ?thesis by linarith
  qed
  with dpos have lo: "underflow_bound < ?t / ?d"
    by (simp only: pos_less_divide_eq)
  have "to_double (?t / ?d) = Fin (?t / ?d)"
    using lo le1 overflow_bound_pos underflow_bound_small(1)
    by (intro to_double_fin) linarith+
  moreover have "?d \<noteq> 0" using d(1) by linarith
  ultimately show ?thesis
    unfolding erlangBFormula_def erlangB_closed_form_def Let_def num den
    by (simp only: divide_num.simps if_False)
qed

lemma no_overflow_10_5: "no_overflow 10 5"
  unfolding no_overflow_def overflow_bound_def underflow_bound_def
  by (simp add: fact_numeral)

lemma erlangBFormula_10_5: "erlangBFormula (Fin 10) 5 = Fin (2500 / 4433)"
proof -
  have "erlangB_closed_form 10 5 = 2500 / 4433"
    by (simp add: erlangB_closed_form_def fact_numeral atMost_nat_numeral)
  with erlangBFormula_exact [OF no_overflow_10_5] show ?thesis by simp
qed

subsection \<open>Monotonicity of the closed form\<close>

text \<open>
  The closed form does not decrease with the load and does not increase with the
  number of servers; where nothing overflows or underflows, neither does the function.
\<close>

lemma ratio_le:
  fixes x1 x2 f D1 D2 :: real
  assumes "0 < f" "0 < D1" "0 < D2" "x1 * D2 \<le> x2 * D1"
  shows "(x1 / f) / D1 \<le> (x2 / f) / D2"
proof -
  define y1 where "y1 = x1 / f"
  define y2 where "y2 = x2 / f"
  have "y1 * D2 \<le> y2 * D1"
    unfolding y1_def y2_def using assms(1,4) by (simp add: divide_right_mono)
  then have "y1 / D1 \<le> y2 / D2"
    using assms(2,3) by (simp add: field_simps)
  then show ?thesis unfolding y1_def y2_def .
qed

lemma closed_form_mono_load:
  assumes "0 < a1" and "a1 \<le> a2"
  shows "erlangB_closed_form a1 S \<le> erlangB_closed_form a2 S"
proof -
  let ?D1 = "\<Sum>k\<le>S. a1 ^ k / fact k" and ?D2 = "\<Sum>k\<le>S. a2 ^ k / fact k"
  from assms have a2: "0 < a2" by linarith
  have D1: "0 < ?D1" using assms(1) by (intro sum_pos) simp_all
  have D2: "0 < ?D2" using a2 by (intro sum_pos) simp_all
  have "a1 ^ S * ?D2 \<le> a2 ^ S * ?D1"
    unfolding sum_distrib_left
  proof (rule sum_mono)
    fix k assume "k \<in> {..S}"
    then have k: "k \<le> S" by simp
    have "a1 ^ (S - k) \<le> a2 ^ (S - k)"
      using assms by (intro power_mono) simp_all
    then have "(a1 ^ k * a2 ^ k) * a1 ^ (S - k) \<le> (a1 ^ k * a2 ^ k) * a2 ^ (S - k)"
      using assms(1) a2 by (intro mult_left_mono) simp_all
    moreover have "a1 ^ S = a1 ^ k * a1 ^ (S - k)" "a2 ^ S = a2 ^ k * a2 ^ (S - k)"
      using k by (simp_all flip: power_add)
    ultimately have "a1 ^ S * a2 ^ k \<le> a2 ^ S * a1 ^ k"
      by (simp add: mult_ac)
    then have "(a1 ^ S * a2 ^ k) / fact k \<le> (a2 ^ S * a1 ^ k) / fact k"
      by (intro divide_right_mono) simp_all
    then show "a1 ^ S * (a2 ^ k / fact k) \<le> a2 ^ S * (a1 ^ k / fact k)"
      by simp
  qed
  then show ?thesis
    unfolding erlangB_closed_form_def using D1 D2 by (intro ratio_le) simp_all
qed

lemma term_step: "a * (a ^ k / fact k) = real (Suc k) * (a ^ Suc k / fact (Suc k))"
  for a :: real
proof -
  have "real (Suc k) * (a ^ Suc k / fact (Suc k)) =
      (real (Suc k) * a ^ Suc k) / (real (Suc k) * fact k)"
    by (simp only: fact_Suc of_nat_mult times_divide_eq_right)
  also have "\<dots> = a ^ Suc k / fact k" by simp
  finally show ?thesis by simp
qed

lemma cross_step:
  fixes a t t' n D D' :: real
  assumes "a * t = n * t'" and "0 < t" and "0 < n" and "a * D \<le> n * D'"
  shows "t' * D \<le> t * D'"
proof -
  have "n * (t' * D) = (n * t') * D" by simp
  also have "\<dots> = (a * t) * D" by (simp only: assms(1))
  also have "\<dots> = t * (a * D)" by simp
  also have "\<dots> \<le> t * (n * D')"
    using assms(2,4) by (intro mult_left_mono) simp_all
  also have "\<dots> = n * (t * D')" by simp
  finally show ?thesis using assms(3) by simp
qed

lemma cross_divide:
  fixes t t' D D' :: real
  assumes "0 < D" and "0 < D'" and "t' * D \<le> t * D'"
  shows "t' / D' \<le> t / D"
  using assms by (simp add: field_simps)

lemma closed_form_mono_servers_step:
  assumes "0 < a"
  shows "erlangB_closed_form a (Suc S) \<le> erlangB_closed_form a S"
proof -
  let ?t = "\<lambda>k. a ^ k / fact k"
  let ?D = "\<lambda>n. \<Sum>k\<le>n. a ^ k / fact k"
  have tpos: "0 < ?t k" for k using assms by simp
  have D: "0 < ?D n" for n using assms by (intro sum_pos) simp_all
  have "a * ?D S = (\<Sum>k\<le>S. real (Suc k) * ?t (Suc k))"
    unfolding sum_distrib_left by (simp only: term_step)
  also have "\<dots> \<le> (\<Sum>k\<le>S. real (Suc S) * ?t (Suc k))"
  proof (rule sum_mono)
    fix k assume "k \<in> {..S}"
    then show "real (Suc k) * ?t (Suc k) \<le> real (Suc S) * ?t (Suc k)"
      using tpos [of "Suc k"] by (intro mult_right_mono) simp_all
  qed
  also have "\<dots> = real (Suc S) * (\<Sum>k\<le>S. ?t (Suc k))"
    by (simp only: sum_distrib_left)
  also have "\<dots> \<le> real (Suc S) * ?D (Suc S)"
  proof (rule mult_left_mono)
    have "?D (Suc S) = ?t 0 + (\<Sum>k\<le>S. ?t (Suc k))"
      by (rule sum.atMost_Suc_shift)
    then show "(\<Sum>k\<le>S. ?t (Suc k)) \<le> ?D (Suc S)" by simp
  qed simp
  finally have le: "a * ?D S \<le> real (Suc S) * ?D (Suc S)" .
  have "?t (Suc S) * ?D S \<le> ?t S * ?D (Suc S)"
    by (rule cross_step [OF term_step tpos _ le]) simp
  with D [of S] D [of "Suc S"] have "?t (Suc S) / ?D (Suc S) \<le> ?t S / ?D S"
    by (rule cross_divide)
  then show ?thesis
    unfolding erlangB_closed_form_def .
qed

lemma closed_form_mono_servers:
  assumes "0 < a" and "S1 \<le> S2"
  shows "erlangB_closed_form a S2 \<le> erlangB_closed_form a S1"
  using assms(2)
proof (induction rule: dec_induct)
  case base
  show ?case by simp
next
  case (step n)
  with closed_form_mono_servers_step [OF assms(1), of n] show ?case by linarith
qed

lemma erlangBFormula_mono_load:
  assumes "no_overflow a1 S" and "no_overflow a2 S" and "a1 \<le> a2"
  shows "le (erlangBFormula (Fin a1) (int S)) (erlangBFormula (Fin a2) (int S))"
proof -
  from assms(1) have "0 < a1" by (simp add: no_overflow_def)
  from closed_form_mono_load [OF this assms(3)] show ?thesis
    by (simp add: erlangBFormula_exact [OF assms(1)] erlangBFormula_exact [OF assms(2)])
qed

lemma erlangBFormula_mono_servers:
  assumes "no_overflow a S1" and "no_overflow a S2" and "S1 \<le> S2"
  shows "le (erlangBFormula (Fin a) (int S2)) (erlangBFormula (Fin a) (int S1))"
proof -
  from assms(1) have "0 < a" by (simp add: no_overflow_def)
  from closed_form_mono_servers [OF this assms(3)] show ?thesis
    by (simp add: erlangBFormula_exact [OF assms(1)] erlangBFormula_exact [OF assms(2)])
qed

text \<open>Two reference values: \<open>B(1, 1) = 0.5\<close> and \<open>B(2, 2) = 0.4\<close>.\<close>

lemma erlangBFormula_1_1: "erlangBFormula (Fin 1) 1 = Fin (1 / 2)"
  by (simp add: erlangBFormula_def erlang_loop_first erlang_loop_step erlang_loop_exit
    factorial_small math_pow.simps to_double_moderate)

lemma erlangBFormula_2_2: "erlangBFormula (Fin 2) 2 = Fin (2 / 5)"
  by (simp add: erlangBFormula_def erlang_loop_first erlang_loop_step erlang_loop_exit
    factorial_small factorial_step math_pow.simps to_double_moderate)

lemma erlangB_closed_form_pos: "0 < a \<Longrightarrow> 0 < erlangB_closed_form a S"
  unfolding erlangB_closed_form_def
  by (intro divide_pos_pos sum_pos) simp_all

section \<open>Facts about the simulation loop\<close>

lemma sim_loop_exit: "\<not> lt (currentTime s) T \<Longrightarrow> sim_loop rng l m sv T s = Some s"
  by (subst sim_loop.simps) simp

lemma sim_loop_enter:
  "lt (currentTime s) T \<Longrightarrow>
     sim_loop rng l m sv T s = sim_loop rng l m sv T (arrival rng l m sv s)"
  by (subst sim_loop.simps) simp

text \<open>A run that returns has passed through the body some number of times.\<close>

lemma sim_loop_iterate:
  assumes "sim_loop rng l m sv T s = Some s'"
  shows "\<exists>n. s' = ((arrival rng l m sv) ^^ n) s \<and> \<not> lt (currentTime s') T"
  using assms
proof (induction rng l m sv T s s' rule: sim_loop.raw_induct [rotated 1, consumes 1, case_names step])
  case (step loop rng l m sv T s s')
  show ?case
  proof (cases "lt (currentTime s) T")
    case True
    with step(2) have "loop rng l m sv T (arrival rng l m sv s) = Some s'" by simp
    from step(1) [OF this] obtain n where
      n: "s' = ((arrival rng l m sv) ^^ n) (arrival rng l m sv s)" "\<not> lt (currentTime s') T"
      by blast
    have "s' = ((arrival rng l m sv) ^^ Suc n) s"
      using n(1) by (simp add: funpow_swap1)
    with n(2) show ?thesis by blast
  next
    case False
    with step(2) have "s' = s" by simp
    with False show ?thesis by (intro exI [of _ 0]) simp
  qed
qed

text \<open>The loop is left as soon as the clock of some pass reaches the horizon.\<close>

lemma sim_loop_returns:
  "\<not> lt (currentTime (((arrival rng l m sv) ^^ n) s)) T \<Longrightarrow>
     \<exists>s'. sim_loop rng l m sv T s = Some s'"
proof (induction n arbitrary: s)
  case 0
  then show ?case by (simp add: sim_loop_exit)
next
  case (Suc n)
  show ?case
  proof (cases "lt (currentTime s) T")
    case True
    from Suc.prems
    have "\<not> lt (currentTime (((arrival rng l m sv) ^^ n) (arrival rng l m sv s))) T"
      by (simp add: funpow_swap1)
    from Suc.IH [OF this] show ?thesis using True by (simp add: sim_loop_enter)
  next
    case False
    then show ?thesis by (simp add: sim_loop_exit)
  qed
qed

lemma state_after_funpow:
  "state_after rng l m sv n = ((arrival rng l m sv) ^^ n) init_state"
  by (induction n) simp_all

lemma sim_loop_state_after:
  "sim_loop rng l m sv T init_state = Some s' \<Longrightarrow>
     \<exists>n. s' = state_after rng l m sv n \<and> \<not> lt (currentTime s') T"
  using sim_loop_iterate [of rng l m sv T init_state s'] by (simp add: state_after_funpow)

lemma arrival_draws: "draws (arrival rng l m sv s) = draws s + 2"
  by (simp add: arrival_def Let_def)

lemma arrival_count:
  "blocked (arrival rng l m sv s) + served (arrival rng l m sv s) = blocked s + served s + 1"
  by (simp add: arrival_def Let_def)

lemma arrival_busy:
  "sv \<le> serversInUse s \<Longrightarrow>
     blocked (arrival rng l m sv s) = blocked s + 1 \<and>
     served (arrival rng l m sv s) = served s \<and>
     serversInUse (arrival rng l m sv s) = serversInUse s \<and>
     timers (arrival rng l m sv s) = timers s"
  by (simp add: arrival_def Let_def)

lemma arrival_free:
  "serversInUse s < sv \<Longrightarrow>
     blocked (arrival rng l m sv s) = blocked s \<and>
     served (arrival rng l m sv s) = served s + 1 \<and>
     serversInUse (arrival rng l m sv s) = serversInUse s + 1 \<and>
     length (timers (arrival rng l m sv s)) = length (timers s) + 1"
  by (simp add: arrival_def Let_def)

lemma arrival_serversInUse_mono: "serversInUse s \<le> serversInUse (arrival rng l m sv s)"
  by (simp add: arrival_def Let_def)

text \<open>
  After \<open>n\<close> passes: every admitted arrival still holds its server and its timer is
  still queued, two random values were drawn per pass, and each pass counted one arrival.
\<close>

lemma state_after_inv:
  "serversInUse (state_after rng l m sv n) = int (served (state_after rng l m sv n)) \<and>
   length (timers (state_after rng l m sv n)) = served (state_after rng l m sv n) \<and>
   draws (state_after rng l m sv n) = 2 * n \<and>
   blocked (state_after rng l m sv n) + served (state_after rng l m sv n) = n"
proof (induction n)
  case 0
  show ?case by (simp add: init_state_def)
next
  case (Suc n)
  show ?case
  proof (cases "serversInUse (state_after rng l m sv n) < sv")
    case True
    from arrival_free [OF this, of rng l m] Suc show ?thesis
      by (simp add: arrival_draws)
  next
    case False
    then have "sv \<le> serversInUse (state_after rng l m sv n)" by simp
    from arrival_busy [OF this, of rng l m] Suc show ?thesis
      by (simp add: arrival_draws)
  qed
qed

lemma state_after_bounds:
  "0 \<le> sv \<Longrightarrow>
     0 \<le> serversInUse (state_after rng l m sv n) \<and> serversInUse (state_after rng l m sv n) \<le> sv"
proof (induction n)
  case 0
  then show ?case by (simp add: init_state_def)
next
  case (Suc n)
  then show ?case by (simp add: arrival_def Let_def)
qed

lemma state_after_full:
  "sv \<le> serversInUse (state_after rng l m sv n) \<Longrightarrow> n \<le> k \<Longrightarrow>
     serversInUse (state_after rng l m sv k) = serversInUse (state_after rng l m sv n) \<and>
     served (state_after rng l m sv k) = served (state_after rng l m sv n) \<and>
     blocked (state_after rng l m sv k) = blocked (state_after rng l m sv n) + (k - n)"
proof (induction k)
  case 0
  then show ?case by simp
next
  case (Suc k)
  show ?case
  proof (cases "n = Suc k")
    case True
    then show ?thesis by simp
  next
    case False
    with Suc.prems have nk: "n \<le> k" by simp
    from Suc.IH [OF Suc.prems(1) nk] have ih:
      "serversInUse (state_after rng l m sv k) = serversInUse (state_after rng l m sv n)"
      "served (state_after rng l m sv k) = served (state_after rng l m sv n)"
      "blocked (state_after rng l m sv k) = blocked (state_after rng l m sv n) + (k - n)"
      by simp_all
    from ih(1) Suc.prems(1) have "sv \<le> serversInUse (state_after rng l m sv k)" by simp
    from arrival_busy [OF this, of rng l m] ih nk show ?thesis by simp
  qed
qed

lemma blocking_ratio_value:
  "1 \<le> blocked s + served s \<Longrightarrow> is_probability (blocking_ratio s)"
proof -
  assume pos: "1 \<le> blocked s + served s"
  let ?r = "real (blocked s) / real (blocked s + served s)"
  have "0 \<le> ?r" and "?r \<le> 1"
    using pos by (simp_all add: divide_le_eq)
  then have "is_probability (to_double ?r)" by (rule to_double_unit)
  moreover have "real (blocked s + served s) \<noteq> 0" using pos by simp
  then have "blocking_ratio s = to_double ?r"
    unfolding blocking_ratio_def by (simp only: divide_num.simps if_False)
  ultimately show ?thesis by simp
qed

subsection \<open>Two test runs\<close>

lemma ln_2_bounds: "1 / 2 \<le> ln (2::real)" "ln (2::real) < 1"
  and ln_4_bounds: "1 \<le> ln (4::real)" "ln (4::real) < 2"
proof -
  have "exp 1 \<le> (4::real)" using exp_le by linarith
  then show 4: "1 \<le> ln (4::real)" by (simp add: ln_ge_iff)
  have "ln (2 * 2 :: real) = ln 2 + ln 2" by (rule ln_mult_pos) simp_all
  then have eq: "ln (4::real) = ln 2 + ln 2" by simp
  show "ln (2::real) < 1" by (rule ln_2_less_1)
  with eq show "ln (4::real) < 2" by linarith
  from eq 4 show "1 / 2 \<le> ln (2::real)" by linarith
qed

text \<open>The exponential samples that the uniform values 0.5 and 0.25 give.\<close>

lemma log_half: "to_double (ln (1 / 2)) = Fin (- ln 2)"
  and sample_half: "to_double (ln 2) = Fin (ln 2)"
  using ln_2_bounds by (simp_all add: ln_div to_double_moderate)

lemma log_quarter: "to_double (ln (1 / 4)) = Fin (- ln 4)"
  and sample_quarter: "to_double (ln 4) = Fin (ln 4)"
  using ln_4_bounds by (simp_all add: ln_div to_double_moderate)

text \<open>
  One server, both rates 1, horizon 1, and \<open>Math.random\<close> returning 0.5, 0.5, 0.25,
  0.5. The first arrival comes at \<open>ln 2\<close> (0.69) and is served for \<open>ln 2\<close>, until
  \<open>2 ln 2\<close> (1.39); the second comes at \<open>ln 2 + ln 4\<close> (2.08).
\<close>

lemma first_arrival:
  "arrival (list_source [1 / 2, 1 / 2, 1 / 4, 1 / 2] (1 / 2)) (Fin 1) (Fin 1) 1 init_state =
     \<lparr>blocked = 0, served = 1, currentTime = Fin (ln 2), serversInUse = 1,
      timers = [Fin (ln 2 * 1000)], draws = 2\<rparr>"
  using ln_2_bounds
  by (simp add: arrival_def init_state_def list_source_def log_half sample_half
      to_double_moderate)

lemma second_arrival:
  "arrival (list_source [1 / 2, 1 / 2, 1 / 4, 1 / 2] (1 / 2)) (Fin 1) (Fin 1) 1
     \<lparr>blocked = 0, served = 1, currentTime = Fin (ln 2), serversInUse = 1,
      timers = [Fin (ln 2 * 1000)], draws = 2\<rparr> =
     \<lparr>blocked = 1, served = 1, currentTime = Fin (ln 2 + ln 4), serversInUse = 1,
      timers = [Fin (ln 2 * 1000)], draws = 4\<rparr>"
  using ln_2_bounds ln_4_bounds
  by (simp add: arrival_def list_source_def log_half sample_half log_quarter sample_quarter
      to_double_moderate)

lemma two_arrival_run:
  "sim_loop (list_source [1 / 2, 1 / 2, 1 / 4, 1 / 2] (1 / 2)) (Fin 1) (Fin 1) 1 (Fin 1)
     init_state =
     Some \<lparr>blocked = 1, served = 1, currentTime = Fin (ln 2 + ln 4), serversInUse = 1,
           timers = [Fin (ln 2 * 1000)], draws = 4\<rparr>"
proof -
  let ?rng = "list_source [1 / 2, 1 / 2, 1 / 4, 1 / 2] (1 / 2)"
  let ?s1 = "\<lparr>blocked = 0, served = 1, currentTime = Fin (ln 2), serversInUse = 1,
      timers = [Fin (ln 2 * 1000)], draws = 2\<rparr>"
  let ?s2 = "\<lparr>blocked = 1, served = 1, currentTime = Fin (ln 2 + ln 4), serversInUse = 1,
      timers = [Fin (ln 2 * 1000)], draws = 4\<rparr>"
  have "lt (currentTime init_state) (Fin 1)"
    by (simp add: init_state_def)
  then have "sim_loop ?rng (Fin 1) (Fin 1) 1 (Fin 1) init_state =
      sim_loop ?rng (Fin 1) (Fin 1) 1 (Fin 1) (arrival ?rng (Fin 1) (Fin 1) 1 init_state)"
    by (rule sim_loop_enter)
  also have "\<dots> = sim_loop ?rng (Fin 1) (Fin 1) 1 (Fin 1) ?s1"
    by (simp only: first_arrival)
  also have "\<dots> =
      sim_loop ?rng (Fin 1) (Fin 1) 1 (Fin 1) (arrival ?rng (Fin 1) (Fin 1) 1 ?s1)"
    by (rule sim_loop_enter) (simp add: ln_2_bounds)
  also have "\<dots> = sim_loop ?rng (Fin 1) (Fin 1) 1 (Fin 1) ?s2"
    by (simp only: second_arrival)
  also have "\<dots> = Some ?s2"
  proof (rule sim_loop_exit)
    have "\<not> ln 2 + ln 4 < (1::real)"
      using ln_2_bounds ln_4_bounds by linarith
    then show "\<not> lt (currentTime ?s2) (Fin 1)" by simp
  qed
  finally show ?thesis .
qed

text \<open>
  Both rates 1, horizon 1, and \<open>Math.random\<close> returning 0.25 every time: the first
  arrival comes at \<open>ln 4\<close> (1.39), past the horizon, and the loop is left after it.
\<close>

lemma late_arrival_time:
  "currentTime (arrival (list_source [] (1 / 4)) (Fin 1) (Fin 1) sv init_state) = Fin (ln 4)"
  using ln_4_bounds
  by (simp add: arrival_def Let_def init_state_def list_source_def log_quarter sample_quarter)

lemma late_arrival_run:
  "sim_loop (list_source [] (1 / 4)) (Fin 1) (Fin 1) sv (Fin 1) init_state =
     Some (arrival (list_source [] (1 / 4)) (Fin 1) (Fin 1) sv init_state)"
proof -
  let ?rng = "list_source [] (1 / 4)"
  have "lt (currentTime init_state) (Fin 1)"
    by (simp add: init_state_def)
  then have "sim_loop ?rng (Fin 1) (Fin 1) sv (Fin 1) init_state =
      sim_loop ?rng (Fin 1) (Fin 1) sv (Fin 1) (arrival ?rng (Fin 1) (Fin 1) sv init_state)"
    by (rule sim_loop_enter)
  also have "\<dots> = Some (arrival ?rng (Fin 1) (Fin 1) sv init_state)"
    using ln_4_bounds by (intro sim_loop_exit) (simp add: late_arrival_time)
  finally show ?thesis .
qed

section \<open>The analytical evaluator\<close>

text \<open>
  C2. Claim: for every offered load \<open>A \<ge> 0\<close> and every server count \<open>S \<ge> 0\<close>,
  \<open>erlangBFormula(A, S)\<close> returns the Erlang-B value
  \<open>(A^S / S!) / (\<Sum>k\<le>S. A^k / k!)\<close>. The code does not: at \<open>A = 200\<close>, \<open>S = 200\<close> the
  closed form is a positive real, and the function returns NaN, because both the power
  and the factorial have overflowed to \<open>Infinity\<close>.
\<close>

theorem erlangB_200_200_not_closed_form:
  "erlangBFormula (Fin 200) 200 = NaN \<and>
   0 < erlangB_closed_form 200 200 \<and>
   erlangBFormula (Fin 200) 200 \<noteq> Fin (erlangB_closed_form 200 200)"
proof -
  have "erlangBFormula (Fin 200) 200 = NaN"
    by (rule erlangBFormula_overflow) (simp_all add: overflow_bound_le)
  moreover have "0 < erlangB_closed_form 200 200"
    by (rule erlangB_closed_form_pos) simp
  ultimately show ?thesis by simp
qed

text \<open>
  C3. Claim: \<open>erlangBFormula(A, S)\<close> is a finite value in \<open>[0, 1]\<close> for every \<open>A \<ge> 0\<close>
  and \<open>S \<ge> 0\<close>, in particular at \<open>A = 100\<close>, \<open>S = 200\<close>. The code returns NaN there.
\<close>

theorem erlangB_100_200_not_finite:
  "erlangBFormula (Fin 100) 200 = NaN \<and> \<not> is_probability (erlangBFormula (Fin 100) 200)"
proof -
  have "overflow_bound \<le> 100 ^ nat 200"
    by (rule overflow_bound_le) simp
  then have power: "math_pow (Fin 100) 200 = PInf"
    by (intro math_pow_overflow) simp_all
  have fact: "factorial 200 = PInf"
    by (rule factorial_overflow) simp
  have "divide_num (divide_num PInf PInf) d = NaN" for d
    by simp
  then have "erlangBFormula (Fin 100) 200 = NaN"
    unfolding erlangBFormula_def Let_def power fact .
  then show ?thesis by (simp add: is_probability_def)
qed

text \<open>
  C5. Claim: \<open>erlangBFormula(0, S) = 0\<close> for every \<open>S \<ge> 0\<close>, the case \<open>S = 0\<close>
  included. With no servers the function returns 1, also at zero load (the power
  \<open>0^0\<close> is 1); and with 20000 servers on a stack of 10000 frames it returns nothing
  but throws.
\<close>

theorem erlangB_0_0_is_1:
  "erlangBFormula (Fin 0) 0 = Fin 1 \<and> erlangBFormula (Fin 0) 0 \<noteq> Fin 0 \<and>
   erlangBFormula_call 2 (Fin 0) 0 = Inr (Fin 1) \<and>
   erlangBFormula_call 10000 (Fin 0) 20000 = Inl RangeError"
  by (simp add: erlangBFormula_call_value erlangBFormula_no_servers)

text \<open>
  C5, as the code has it: at zero load the call returns 0 for every \<open>S \<ge> 1\<close> and 1
  for \<open>S = 0\<close>, provided the call stack has more than \<open>max 1 S\<close> free frames; with
  fewer it throws \<open>RangeError\<close>.
\<close>

theorem erlangB_zero_load:
  assumes "0 \<le> S"
  shows "erlangBFormula_call frames (Fin 0) S =
    (if frames \<le> nat (max 1 S) then Inl RangeError
     else if S = 0 then Inr (Fin 1) else Inr (Fin 0))"
proof -
  have "erlangBFormula (Fin 0) S = (if S = 0 then Fin 1 else Fin 0)"
  proof (cases "S = 0")
    case True
    then show ?thesis by (simp add: erlangBFormula_no_servers)
  next
    case False
    with assms have S: "0 < S" by simp
    have numerator: "divide_num (math_pow (Fin 0) S) (factorial S) = Fin 0"
      using S by (simp add: math_pow_zero_base zero_over_factorial)
    have "erlang_loop (Fin 0) S 0 (Fin 0) = erlang_loop (Fin 0) S 1 (Fin 1)"
      using assms by (rule erlang_loop_first)
    also have "\<dots> = Fin 1"
      by (rule erlang_loop_zero_load) simp
    finally have denominator: "erlang_loop (Fin 0) S 0 (Fin 0) = Fin 1" .
    show ?thesis
      unfolding erlangBFormula_def Let_def numerator denominator
      using False by (simp add: to_double_0)
  qed
  then show ?thesis by (simp add: erlangBFormula_call_value)
qed

theorem erlangB_zero_load_witness:
  "(0::int) \<le> 3 \<and>
   erlangBFormula_call 4 (Fin 0) 3 = Inr (Fin 0) \<and>
   erlangBFormula_call 3 (Fin 0) 3 = Inl RangeError"
  using erlangB_zero_load [of 3 4] erlangB_zero_load [of 3 3] by simp

text \<open>
  C7. Claim: \<open>erlangBFormula\<close> is non-decreasing in \<open>A\<close> for fixed \<open>S\<close> and
  non-increasing in \<open>S\<close> for fixed \<open>A\<close>. Both comparisons fail against the NaN at
  \<open>A = 100\<close>, \<open>S = 200\<close>: the value 0 at load 0 is not below it, and it is not below the
  value 1 at \<open>S = 0\<close>.
\<close>

theorem erlangB_not_monotone:
  "erlangBFormula (Fin 0) 200 = Fin 0 \<and>
   erlangBFormula (Fin 100) 0 = Fin 1 \<and>
   \<not> le (erlangBFormula (Fin 0) 200) (erlangBFormula (Fin 100) 200) \<and>
   \<not> le (erlangBFormula (Fin 100) 200) (erlangBFormula (Fin 100) 0)"
proof -
  have "erlang_loop (Fin 0) 200 0 (Fin 0) = erlang_loop (Fin 0) 200 1 (Fin 1)"
    by (rule erlang_loop_first) simp
  also have "\<dots> = Fin 1"
    by (rule erlang_loop_zero_load) simp
  finally have "erlangBFormula (Fin 0) 200 = Fin 0"
    by (simp add: erlangBFormula_def math_pow_zero_base zero_over_factorial to_double_0)
  then show ?thesis
    by (simp add: erlangBFormula_100_200 erlangBFormula_no_servers)
qed




section \<open>The stochastic simulator\<close>

text \<open>
  C1. Claim: with one server, a second arrival that comes strictly after the first
  arrival's service has completed is admitted as well (\<open>served = 2\<close>, \<open>blocked = 0\<close>).
  In the test run with 0.5, 0.5, 0.25, 0.5 the first service ends at \<open>ln 2 + ln 2\<close>,
  before the second arrival at \<open>ln 2 + ln 4\<close>; the code still blocks the second
  arrival, since the timer that would free the server is only queued, and returns 0.5.
  Whatever the random source and the rates, the second arrival of a run with one server
  is blocked.
\<close>

theorem second_arrival_blocked_after_completion:
  "ln 2 + ln 2 < (ln 2 + ln 4 :: real) \<and>
   sim_loop (list_source [1 / 2, 1 / 2, 1 / 4, 1 / 2] (1 / 2)) (Fin 1) (Fin 1) 1 (Fin 1)
     init_state =
     Some \<lparr>blocked = 1, served = 1, currentTime = Fin (ln 2 + ln 4), serversInUse = 1,
           timers = [Fin (ln 2 * 1000)], draws = 4\<rparr> \<and>
   simulateBlockingProbability (list_source [1 / 2, 1 / 2, 1 / 4, 1 / 2] (1 / 2))
     (Fin 1) (Fin 1) 1 (Fin 1) = Some (Fin (1 / 2)) \<and>
   served (state_after rng lambda mu 1 (Suc (Suc 0))) = 1 \<and>
   blocked (state_after rng lambda mu 1 (Suc (Suc 0))) = 1"
proof -
  have "ln 2 + ln 2 < (ln 2 + ln 4 :: real)"
    using ln_2_bounds ln_4_bounds by linarith
  moreover have "to_double (1 / 2) = Fin (1 / 2)"
    by (rule to_double_moderate) simp_all
  moreover have "served (state_after rng lambda mu 1 (Suc (Suc 0))) = 1 \<and>
      blocked (state_after rng lambda mu 1 (Suc (Suc 0))) = 1"
  proof -
    have "serversInUse (state_after rng lambda mu 1 0) < 1"
      by (simp add: init_state_def)
    from arrival_free [OF this, of rng lambda mu]
    have one: "served (state_after rng lambda mu 1 (Suc 0)) = 1"
      "blocked (state_after rng lambda mu 1 (Suc 0)) = 0"
      "serversInUse (state_after rng lambda mu 1 (Suc 0)) = 1"
      by (simp_all add: init_state_def)
    then have "1 \<le> serversInUse (state_after rng lambda mu 1 (Suc 0))" by simp
    from arrival_busy [OF this, of rng lambda mu] one show ?thesis by simp
  qed
  ultimately show ?thesis
    by (simp add: simulateBlockingProbability_def two_arrival_run blocking_ratio_def
      del: state_after.simps)
qed

text \<open>
  C4. Claim: a run that ends with \<open>served + blocked = 0\<close> reports a failure or a
  sentinel and never the quotient \<open>0 / 0\<close>. With the horizon 0 the loop is not entered,
  both counters are 0 and the function returns NaN.
\<close>

theorem zero_horizon_returns_NaN:
  "sim_loop (list_source [] (1 / 4)) (Fin 1) (Fin 1) 1 (Fin 0) init_state = Some init_state \<and>
   blocked init_state + served init_state = 0 \<and>
   simulateBlockingProbability (list_source [] (1 / 4)) (Fin 1) (Fin 1) 1 (Fin 0) = Some NaN"
proof -
  have "sim_loop (list_source [] (1 / 4)) (Fin 1) (Fin 1) 1 (Fin 0) init_state = Some init_state"
    by (rule sim_loop_exit) (simp add: init_state_def)
  then show ?thesis
    by (simp add: simulateBlockingProbability_def blocking_ratio_def) (simp add: init_state_def)
qed

text \<open>
  C4, as the code has it: a run ends with both counters at 0 only when the loop is
  never entered, that is when \<open>0 < timeLimit\<close> is false; the state is then the initial
  one and the function returns NaN, with no failure and no sentinel.
\<close>

theorem no_arrival_returns_NaN:
  assumes "sim_loop rng lambda mu servers timeLimit init_state = Some s"
    and "blocked s + served s = 0"
  shows "\<not> lt (Fin 0) timeLimit \<and> s = init_state \<and>
    simulateBlockingProbability rng lambda mu servers timeLimit = Some NaN"
proof -
  from sim_loop_state_after [OF assms(1)] obtain n where
    n: "s = state_after rng lambda mu servers n" "\<not> lt (currentTime s) timeLimit"
    by blast
  from state_after_inv [of rng lambda mu servers n] n(1) assms(2) have "n = 0" by simp
  with n(1) have s: "s = init_state" by simp
  with n(2) have "\<not> lt (Fin 0) timeLimit" by (simp add: init_state_def)
  moreover have "blocking_ratio init_state = NaN"
    by (simp add: blocking_ratio_def init_state_def)
  ultimately show ?thesis
    using assms(1) s by (simp add: simulateBlockingProbability_def)
qed

theorem no_arrival_returns_NaN_witness:
  "sim_loop (list_source [] (1 / 4)) (Fin 1) (Fin 1) 1 (Fin (- 1)) init_state = Some init_state \<and>
   blocked init_state + served init_state = 0 \<and>
   \<not> lt (Fin 0) (Fin (- 1)) \<and>
   simulateBlockingProbability (list_source [] (1 / 4)) (Fin 1) (Fin 1) 1 (Fin (- 1)) = Some NaN"
proof -
  have run: "sim_loop (list_source [] (1 / 4)) (Fin 1) (Fin 1) 1 (Fin (- 1)) init_state =
      Some init_state"
    by (rule sim_loop_exit) (simp add: init_state_def)
  have zero: "blocked init_state + served init_state = 0"
    by (simp add: init_state_def)
  from no_arrival_returns_NaN [OF run zero] run zero show ?thesis by simp
qed

text \<open>
  C6. Claim: an arrival that finds all servers busy increments \<open>blocked\<close> and draws no
  service duration. With no server at all, the first arrival is blocked and two values
  of the random source are gone, not one.
\<close>

theorem blocked_arrival_draws_twice:
  "blocked (arrival (list_source [1 / 2, 1 / 2] (1 / 2)) (Fin 1) (Fin 1) 0 init_state) =
     blocked init_state + 1 \<and>
   draws (arrival (list_source [1 / 2, 1 / 2] (1 / 2)) (Fin 1) (Fin 1) 0 init_state) =
     draws init_state + 2 \<and>
   draws (arrival (list_source [1 / 2, 1 / 2] (1 / 2)) (Fin 1) (Fin 1) 0 init_state) \<noteq>
     draws init_state + 1"
  by (simp add: arrival_def Let_def init_state_def)

text \<open>
  C6, as the code has it: an arrival that finds all servers busy increments \<open>blocked\<close>
  and changes neither \<open>served\<close>, \<open>serversInUse\<close> nor the queued timers; its service
  duration has been drawn all the same. Every pass draws two values, the second of
  which a blocked arrival discards, so a run that returns has drawn twice as many
  values as it counted arrivals.
\<close>

theorem blocked_arrival_effect:
  "(servers \<le> serversInUse s \<longrightarrow>
      blocked (arrival rng lambda mu servers s) = blocked s + 1 \<and>
      served (arrival rng lambda mu servers s) = served s \<and>
      serversInUse (arrival rng lambda mu servers s) = serversInUse s \<and>
      timers (arrival rng lambda mu servers s) = timers s) \<and>
   draws (arrival rng lambda mu servers s) = draws s + 2 \<and>
   (sim_loop rng lambda mu servers timeLimit init_state = Some s' \<longrightarrow>
      draws s' = 2 * (blocked s' + served s'))"
proof -
  have "draws s' = 2 * (blocked s' + served s')"
    if "sim_loop rng lambda mu servers timeLimit init_state = Some s'"
  proof -
    from sim_loop_state_after [OF that] obtain n where
      "s' = state_after rng lambda mu servers n" by blast
    then show ?thesis using state_after_inv [of rng lambda mu servers n] by simp
  qed
  then show ?thesis
    using arrival_busy [of servers s rng lambda mu] by (simp add: arrival_draws)
qed

theorem blocked_arrival_effect_witness:
  "(0::int) \<le> serversInUse init_state \<and>
   blocked (arrival (list_source [] (1 / 4)) (Fin 1) (Fin 1) 0 init_state) = 1 \<and>
   timers (arrival (list_source [] (1 / 4)) (Fin 1) (Fin 1) 0 init_state) = [] \<and>
   sim_loop (list_source [] (1 / 4)) (Fin 1) (Fin 1) 0 (Fin 1) init_state =
     Some (arrival (list_source [] (1 / 4)) (Fin 1) (Fin 1) 0 init_state) \<and>
   draws (arrival (list_source [] (1 / 4)) (Fin 1) (Fin 1) 0 init_state) = 2"
  using blocked_arrival_effect [of 0 init_state "list_source [] (1 / 4)" "Fin 1" "Fin 1"
      "Fin 1" "arrival (list_source [] (1 / 4)) (Fin 1) (Fin 1) 0 init_state"]
    late_arrival_run [of 0]
  by (simp add: init_state_def)

text \<open>
  C9. Claim: within a run \<open>serversInUse\<close> never decreases, once it has reached
  \<open>servers\<close> every later arrival is blocked, and \<open>0 \<le> serversInUse \<le> servers\<close> holds
  throughout. The bound fails for a negative server count: with \<open>servers = -1\<close> the
  first arrival is blocked and \<open>serversInUse\<close> stays 0, above \<open>servers\<close>.
\<close>

theorem negative_servers_bound_fails:
  "serversInUse (state_after (list_source [] (1 / 4)) (Fin 1) (Fin 1) (- 1) 1) = 0 \<and>
   blocked (state_after (list_source [] (1 / 4)) (Fin 1) (Fin 1) (- 1) 1) = 1 \<and>
   \<not> serversInUse (state_after (list_source [] (1 / 4)) (Fin 1) (Fin 1) (- 1) 1) \<le> - 1"
  by (simp add: arrival_def Let_def init_state_def)

text \<open>
  C9, as the code has it, for a server count that is not negative. After any number
  of passes through the loop body: \<open>serversInUse\<close> is not smaller after the next pass;
  it lies between 0 and \<open>servers\<close>; it equals \<open>served\<close>, and as many timers are queued,
  none of them run; and once it equals \<open>servers\<close> it stays there and every later pass
  increments \<open>blocked\<close> and leaves \<open>served\<close> alone. The state a run returns is the state
  after some number of passes.
\<close>

theorem servers_never_released:
  assumes "0 \<le> servers"
  shows
    "serversInUse (state_after rng lambda mu servers n) \<le>
       serversInUse (state_after rng lambda mu servers (Suc n)) \<and>
     0 \<le> serversInUse (state_after rng lambda mu servers n) \<and>
     serversInUse (state_after rng lambda mu servers n) \<le> servers \<and>
     serversInUse (state_after rng lambda mu servers n) =
       int (served (state_after rng lambda mu servers n)) \<and>
     length (timers (state_after rng lambda mu servers n)) =
       served (state_after rng lambda mu servers n) \<and>
     (serversInUse (state_after rng lambda mu servers n) = servers \<and> n \<le> k \<longrightarrow>
        serversInUse (state_after rng lambda mu servers k) = servers \<and>
        served (state_after rng lambda mu servers (Suc k)) =
          served (state_after rng lambda mu servers k) \<and>
        blocked (state_after rng lambda mu servers (Suc k)) =
          blocked (state_after rng lambda mu servers k) + 1) \<and>
     (sim_loop rng lambda mu servers timeLimit init_state = Some s' \<longrightarrow>
        (\<exists>j. s' = state_after rng lambda mu servers j))"
proof -
  let ?st = "state_after rng lambda mu servers"
  have mono: "serversInUse (?st n) \<le> serversInUse (?st (Suc n))"
    by (simp add: arrival_serversInUse_mono)
  have full:
    "serversInUse (?st k) = servers \<and> served (?st (Suc k)) = served (?st k) \<and>
     blocked (?st (Suc k)) = blocked (?st k) + 1"
    if "serversInUse (?st n) = servers" and "n \<le> k"
  proof -
    from that have le: "servers \<le> serversInUse (?st n)" by simp
    from state_after_full [OF le that(2)] that(1)
    have k: "serversInUse (?st k) = servers" by simp
    then have "servers \<le> serversInUse (?st k)" by simp
    from arrival_busy [OF this, of rng lambda mu] k show ?thesis by simp
  qed
  have run: "\<exists>j. s' = ?st j"
    if "sim_loop rng lambda mu servers timeLimit init_state = Some s'"
    using sim_loop_state_after [OF that] by blast
  from mono full run state_after_bounds [OF assms, of rng lambda mu n]
    state_after_inv [of rng lambda mu servers n]
  show ?thesis by blast
qed

theorem servers_never_released_witness:
  "(0::int) \<le> 1 \<and>
   serversInUse (state_after (list_source [1 / 2, 1 / 2, 1 / 4, 1 / 2] (1 / 2))
     (Fin 1) (Fin 1) 1 (Suc 0)) = 1 \<and>
   served (state_after (list_source [1 / 2, 1 / 2, 1 / 4, 1 / 2] (1 / 2))
     (Fin 1) (Fin 1) 1 (Suc (Suc 0))) = 1 \<and>
   blocked (state_after (list_source [1 / 2, 1 / 2, 1 / 4, 1 / 2] (1 / 2))
     (Fin 1) (Fin 1) 1 (Suc (Suc 0))) = 1 \<and>
   sim_loop (list_source [1 / 2, 1 / 2, 1 / 4, 1 / 2] (1 / 2)) (Fin 1) (Fin 1) 1 (Fin 1)
     init_state =
     Some (state_after (list_source [1 / 2, 1 / 2, 1 / 4, 1 / 2] (1 / 2)) (Fin 1) (Fin 1) 1
       (Suc (Suc 0)))"
proof -
  let ?rng = "list_source [1 / 2, 1 / 2, 1 / 4, 1 / 2] (1 / 2)"
  let ?st = "state_after ?rng (Fin 1) (Fin 1) 1"
  have one: "?st (Suc 0) =
      \<lparr>blocked = 0, served = 1, currentTime = Fin (ln 2), serversInUse = 1,
       timers = [Fin (ln 2 * 1000)], draws = 2\<rparr>"
    by (simp only: state_after.simps first_arrival)
  have two: "?st (Suc (Suc 0)) =
      \<lparr>blocked = 1, served = 1, currentTime = Fin (ln 2 + ln 4), serversInUse = 1,
       timers = [Fin (ln 2 * 1000)], draws = 4\<rparr>"
    by (simp only: state_after.simps first_arrival second_arrival)
  have run: "sim_loop ?rng (Fin 1) (Fin 1) 1 (Fin 1) init_state = Some (?st (Suc (Suc 0)))"
    by (simp only: two two_arrival_run)
  have full: "serversInUse (?st (Suc 0)) = 1"
    by (simp only: one) simp
  have "served (?st (Suc 0)) = 1" and "blocked (?st (Suc 0)) = 0"
    by (simp_all only: one) simp_all
  with servers_never_released [of 1 ?rng "Fin 1" "Fin 1" "Suc 0" "Suc 0" "Fin 1"
      "?st (Suc (Suc 0))"] full run
  show ?thesis by (simp del: state_after.simps)
qed

text \<open>
  C10. For every \<open>timeLimit > 0\<close> the loop body runs at least once; the arrival whose
  gap takes the clock to the horizon or past it is still counted and ends the loop;
  so a run that returns has \<open>blocked + served \<ge> 1\<close> and returns the finite quotient
  \<open>blocked / (blocked + served)\<close>, a number in \<open>[0, 1]\<close>. The run does return as soon
  as the clock of some pass is not below the horizon.
\<close>

theorem first_arrival_always_counted:
  assumes "lt (Fin 0) timeLimit"
  shows
    "sim_loop rng lambda mu servers timeLimit init_state =
       sim_loop rng lambda mu servers timeLimit (arrival rng lambda mu servers init_state) \<and>
     (lt (currentTime s) timeLimit \<and>
      \<not> lt (currentTime (arrival rng lambda mu servers s)) timeLimit \<longrightarrow>
        sim_loop rng lambda mu servers timeLimit s = Some (arrival rng lambda mu servers s) \<and>
        blocked (arrival rng lambda mu servers s) + served (arrival rng lambda mu servers s) =
          blocked s + served s + 1) \<and>
     (sim_loop rng lambda mu servers timeLimit init_state = Some s' \<longrightarrow>
        1 \<le> blocked s' + served s' \<and>
        simulateBlockingProbability rng lambda mu servers timeLimit =
          Some (blocking_ratio s') \<and>
        is_probability (blocking_ratio s')) \<and>
     (\<not> lt (currentTime (state_after rng lambda mu servers n)) timeLimit \<longrightarrow>
        (\<exists>s''. sim_loop rng lambda mu servers timeLimit init_state = Some s''))"
proof -
  have enter: "lt (currentTime init_state) timeLimit"
    using assms by (simp add: init_state_def)
  then have once: "sim_loop rng lambda mu servers timeLimit init_state =
      sim_loop rng lambda mu servers timeLimit (arrival rng lambda mu servers init_state)"
    by (rule sim_loop_enter)
  have last: "sim_loop rng lambda mu servers timeLimit s = Some (arrival rng lambda mu servers s)"
    if "lt (currentTime s) timeLimit"
      and "\<not> lt (currentTime (arrival rng lambda mu servers s)) timeLimit"
    using that by (simp add: sim_loop_enter sim_loop_exit)
  have result:
    "1 \<le> blocked s' + served s' \<and>
     simulateBlockingProbability rng lambda mu servers timeLimit = Some (blocking_ratio s') \<and>
     is_probability (blocking_ratio s')"
    if ret: "sim_loop rng lambda mu servers timeLimit init_state = Some s'"
  proof -
    from sim_loop_state_after [OF ret] obtain j where
      j: "s' = state_after rng lambda mu servers j" "\<not> lt (currentTime s') timeLimit"
      by blast
    from j enter have "j \<noteq> 0" by (cases j) auto
    with state_after_inv [of rng lambda mu servers j] j(1)
    have pos: "1 \<le> blocked s' + served s'" by simp
    from blocking_ratio_value [OF pos] pos ret show ?thesis
      by (simp add: simulateBlockingProbability_def)
  qed
  have returns: "\<exists>s''. sim_loop rng lambda mu servers timeLimit init_state = Some s''"
    if "\<not> lt (currentTime (state_after rng lambda mu servers n)) timeLimit"
    using that sim_loop_returns [where rng = rng and l = lambda and m = mu and sv = servers
        and n = n and s = init_state and T = timeLimit]
    by (simp add: state_after_funpow)
  from once last result returns arrival_count [of rng lambda mu servers s]
  show ?thesis by blast
qed

theorem first_arrival_always_counted_witness:
  "lt (Fin 0) (Fin 1) \<and>
   lt (currentTime init_state) (Fin 1) \<and>
   \<not> lt (currentTime (arrival (list_source [] (1 / 4)) (Fin 1) (Fin 1) 1 init_state)) (Fin 1) \<and>
   sim_loop (list_source [] (1 / 4)) (Fin 1) (Fin 1) 1 (Fin 1) init_state =
     Some (arrival (list_source [] (1 / 4)) (Fin 1) (Fin 1) 1 init_state) \<and>
   blocked (arrival (list_source [] (1 / 4)) (Fin 1) (Fin 1) 1 init_state) +
     served (arrival (list_source [] (1 / 4)) (Fin 1) (Fin 1) 1 init_state) = 1 \<and>
   simulateBlockingProbability (list_source [] (1 / 4)) (Fin 1) (Fin 1) 1 (Fin 1) =
     Some (Fin 0) \<and>
   is_probability (Fin 0)"
proof -
  let ?rng = "list_source [] (1 / 4)"
  let ?s1 = "arrival ?rng (Fin 1) (Fin 1) 1 init_state"
  have pos: "lt (Fin 0) (Fin 1)" by simp
  have t0: "lt (currentTime init_state) (Fin 1)" by (simp add: init_state_def)
  have t1: "\<not> lt (currentTime ?s1) (Fin 1)"
    using ln_4_bounds by (simp add: late_arrival_time)
  have b: "blocked ?s1 = 0" and sv: "served ?s1 = 1"
    by (simp_all add: arrival_def Let_def init_state_def)
  from first_arrival_always_counted [OF pos, of ?rng "Fin 1" "Fin 1" 1 init_state ?s1 1]
    t0 t1 late_arrival_run [of 1] b sv
  show ?thesis by (simp add: blocking_ratio_def to_double_0)
qed

end
